theory Spec2Isabelle
  imports Complex_Main "HOL-Library.Char_ord" "HOL-Library.List_Lexorder"
begin

section \<open>Python values, exceptions and builtins\<close>

text \<open>
  The model follows \<^verbatim>\<open>scripts/convert_to_coco.py\<close>. Exceptions are values: a function that
  can raise returns \<open>exn + 'a\<close>, with \<open>Inl\<close> the exception that leaves the function.
\<close>

datatype exn = ValueError | KeyError | TypeError | OSError

text \<open>
  What \<^verbatim>\<open>row.get(key, default)\<close> can hand to \<^verbatim>\<open>float()\<close> and \<^verbatim>\<open>int()\<close>: a string read
  from the file, \<^verbatim>\<open>None\<close> (the value \<^verbatim>\<open>csv.DictReader\<close> stores for a column that a short
  row does not reach), or the integer default written in the source.
\<close>

datatype pyval = PyStr string | PyNone | PyInt int

text \<open>
  A number stored in an output record is a Python \<^verbatim>\<open>int\<close> (image dimensions, and what is
  computed from them) or a Python \<^verbatim>\<open>float\<close> (what \<^verbatim>\<open>float()\<close> returned). The type \<open>'f\<close> of
  floats is a parameter: the model uses the comparison with zero and the product of the
  type and nothing else about its arithmetic.
\<close>

datatype 'f pynum = PInt int | PFloat 'f

text \<open>
  The builtins \<^verbatim>\<open>float\<close> and \<^verbatim>\<open>int\<close> are not code of the repository: how they read a
  string is a parameter (\<open>None\<close> when the builtin raises \<^verbatim>\<open>ValueError\<close>).
\<close>

record 'f builtins =
  float_of_str :: "string \<Rightarrow> 'f option"
  float_of_int :: "int \<Rightarrow> 'f"
  int_of_str :: "string \<Rightarrow> int option"

definition py_float :: "'f builtins \<Rightarrow> pyval \<Rightarrow> exn + 'f" where
  "py_float B v =
     (case v of
        PyStr s \<Rightarrow> (case float_of_str B s of None \<Rightarrow> Inl ValueError | Some r \<Rightarrow> Inr r)
      | PyNone \<Rightarrow> Inl TypeError
      | PyInt n \<Rightarrow> Inr (float_of_int B n))"

definition py_int :: "'f builtins \<Rightarrow> pyval \<Rightarrow> exn + int" where
  "py_int B v =
     (case v of
        PyStr s \<Rightarrow> (case int_of_str B s of None \<Rightarrow> Inl ValueError | Some n \<Rightarrow> Inr n)
      | PyNone \<Rightarrow> Inl TypeError
      | PyInt n \<Rightarrow> Inr n)"

definition num_mul :: "'f::times builtins \<Rightarrow> 'f pynum \<Rightarrow> 'f pynum \<Rightarrow> 'f pynum" where
  "num_mul B a b =
     (case (a, b) of
        (PInt m, PInt n) \<Rightarrow> PInt (m * n)
      | (PInt m, PFloat s) \<Rightarrow> PFloat (float_of_int B m * s)
      | (PFloat r, PInt n) \<Rightarrow> PFloat (r * float_of_int B n)
      | (PFloat r, PFloat s) \<Rightarrow> PFloat (r * s))"


section \<open>Rows of a CSV file\<close>

text \<open>
  A row as \<^verbatim>\<open>csv.DictReader\<close> yields it: a dictionary from column names to values. A CSV
  file is given by its records (the lists of fields \<^verbatim>\<open>csv.reader\<close> produces, the header
  first). \<^verbatim>\<open>DictReader\<close> takes the first record as the field names, drops empty records,
  pairs names and fields in order (\<^verbatim>\<open>dict(zip(fieldnames, row))\<close>, a later duplicate name
  winning) and gives the names a short row does not reach the value \<^verbatim>\<open>None\<close>.
\<close>

type_synonym row = "string \<rightharpoonup> pyval"

definition mk_row :: "string list \<Rightarrow> string list \<Rightarrow> row" where
  "mk_row fieldnames vals =
     map_of (rev (zip fieldnames
       (map PyStr vals @ replicate (length fieldnames - length vals) PyNone)))"

definition dict_reader :: "string list list \<Rightarrow> row list" where
  "dict_reader records =
     (case records of
        [] \<Rightarrow> []
      | fieldnames # rest \<Rightarrow> map (mk_row fieldnames) (filter (\<lambda>r. r \<noteq> []) rest))"

definition has_key :: "row \<Rightarrow> string \<Rightarrow> bool" where
  "has_key row k = (row k \<noteq> None)"

definition dict_get :: "row \<Rightarrow> string \<Rightarrow> pyval \<Rightarrow> pyval" where
  "dict_get row k d = (case row k of Some v \<Rightarrow> v | None \<Rightarrow> d)"

section \<open>\<^verbatim>\<open>parse_csv_boxes\<close>\<close>

text \<open>
  A parsed box is the dictionary with the keys \<^verbatim>\<open>bbox\<close>, \<^verbatim>\<open>area\<close> and \<^verbatim>\<open>category_id\<close>. The
  caller reads \<^verbatim>\<open>category_id\<close> with \<^verbatim>\<open>box.get('category_id', default)\<close>, so the field is
  optional here: \<open>None\<close> stands for a dictionary without the key.
\<close>

record 'f box =
  box_bbox :: "'f list"
  box_area :: "'f"
  box_category_id :: "int option"

text \<open>
  The body of the \<^verbatim>\<open>try\<close> block for one row: \<open>Inr None\<close> when the row is passed over
  (\<^verbatim>\<open>continue\<close>, or the size test fails), \<open>Inr (Some b)\<close> when \<open>b\<close> is appended, \<open>Inl e\<close>
  when \<open>e\<close> is raised.
\<close>

definition parse_row :: "'f::{zero,ord,times} builtins \<Rightarrow> row \<Rightarrow> exn + 'f box option" where
  "parse_row B row =
     (if dict_get row ''#item'' PyNone = PyNone \<and> \<not> has_key row ''item'' then Inr None
      else
        let item_key = (if has_key row ''#item'' then ''#item'' else ''item'') in
        if \<not> has_key row item_key then Inr None
        else
          case py_float B (dict_get row ''x'' (PyInt 0)) of Inl e \<Rightarrow> Inl e | Inr x \<Rightarrow>
          case py_float B (dict_get row ''y'' (PyInt 0)) of Inl e \<Rightarrow> Inl e | Inr y \<Rightarrow>
          case py_float B (dict_get row ''width''
                 (dict_get row ''w'' (dict_get row ''dx'' (PyInt 0)))) of
            Inl e \<Rightarrow> Inl e | Inr width \<Rightarrow>
          case py_float B (dict_get row ''height''
                 (dict_get row ''h'' (dict_get row ''dy'' (PyInt 0)))) of
            Inl e \<Rightarrow> Inl e | Inr height \<Rightarrow>
          case py_int B (dict_get row ''label'' (PyInt 1)) of Inl e \<Rightarrow> Inl e | Inr label \<Rightarrow>
          if 0 < width \<and> 0 < height
          then Inr (Some \<lparr>box_bbox = [x, y, width, height],
                          box_area = width * height,
                          box_category_id = Some label\<rparr>)
          else Inr None)"

text \<open>
  The loop over the rows. \<^verbatim>\<open>except (ValueError, KeyError): continue\<close> catches these two
  exceptions; any other leaves the function.
\<close>

fun parse_rows :: "'f::{zero,ord,times} builtins \<Rightarrow> row list \<Rightarrow> 'f box list \<Rightarrow> exn + 'f box list" where
  "parse_rows B [] boxes = Inr boxes"
| "parse_rows B (row # rows) boxes =
     (case parse_row B row of
        Inl e \<Rightarrow> (if e = ValueError \<or> e = KeyError then parse_rows B rows boxes else Inl e)
      | Inr None \<Rightarrow> parse_rows B rows boxes
      | Inr (Some b) \<Rightarrow> parse_rows B rows (boxes @ [b]))"

text \<open>The argument is the file at \<^verbatim>\<open>csv_path\<close>: \<open>None\<close> when no such file exists.\<close>

definition parse_csv_boxes ::
  "'f::{zero,ord,times} builtins \<Rightarrow> string list list option \<Rightarrow> exn + 'f box list" where
  "parse_csv_boxes B csv_file =
     (case csv_file of
        None \<Rightarrow> Inr []
      | Some records \<Rightarrow> parse_rows B (dict_reader records) [])"

section \<open>The dataset on disk\<close>

text \<open>
  The directory \<^verbatim>\<open>category_root\<close>. A directory is the list of its entries by name, in the
  order in which \<^verbatim>\<open>glob\<close> happens to yield them; the entry a name denotes is the first of
  that name. An image file carries the size PIL reads from it; \<open>Unreadable\<close> is an entry at
  an image path that \<^verbatim>\<open>Image.open\<close> rejects (a directory, a file that is no image). A text
  file is the list of its lines (\<^verbatim>\<open>read_text().splitlines()\<close>), a CSV file the list of its
  records. \<open>sets_dir\<close> holds the files of \<^verbatim>\<open>category_root/sets\<close>, \<open>entries\<close> what
  \<^verbatim>\<open>category_root.glob("*")\<close> finds: plain files, and directories with their \<^verbatim>\<open>images\<close>
  directory (\<open>None\<close> when there is none) and their \<^verbatim>\<open>csv\<close> directory.

  Names are compared character by character, as a file system that distinguishes case
  does. The image and CSV directories are flat: a base name is looked up as one file name.
\<close>

datatype image_file = Image int int | Unreadable

record subdir =
  images_dir :: "(string \<times> image_file) list option"
  csv_dir :: "(string \<times> string list list) list"

datatype node = File | Dir subdir

record dataset =
  sets_dir :: "(string \<times> string list) list"
  entries :: "(string \<times> node) list"

definition image_at :: "dataset \<Rightarrow> string \<Rightarrow> string \<Rightarrow> image_file option" where
  "image_at ds subcat name =
     (case map_of (entries ds) subcat of
        Some (Dir sd) \<Rightarrow> (case images_dir sd of Some imgs \<Rightarrow> map_of imgs name | None \<Rightarrow> None)
      | _ \<Rightarrow> None)"

definition csv_at :: "dataset \<Rightarrow> string \<Rightarrow> string \<Rightarrow> string list list option" where
  "csv_at ds subcat name =
     (case map_of (entries ds) subcat of
        Some (Dir sd) \<Rightarrow> map_of (csv_dir sd) name
      | _ \<Rightarrow> None)"

section \<open>\<^verbatim>\<open>read_split_list\<close> and \<^verbatim>\<open>image_size\<close>\<close>

text \<open>
  \<^verbatim>\<open>str.strip()\<close> removes white space at both ends; the white space of ASCII is modelled.
\<close>

definition is_space :: "char \<Rightarrow> bool" where
  "is_space c = (of_char c \<in> {9, 10, 11, 12, 13, 28, 29, 30, 31, 32 :: nat})"

definition strip :: "string \<Rightarrow> string" where
  "strip s = rev (dropWhile is_space (rev (dropWhile is_space s)))"

definition read_split_list :: "string list option \<Rightarrow> string list" where
  "read_split_list split_file =
     (case split_file of
        None \<Rightarrow> []
      | Some text_lines \<Rightarrow> filter (\<lambda>line. line \<noteq> []) (map strip text_lines))"

definition image_size :: "image_file \<Rightarrow> exn + (int \<times> int)" where
  "image_size f = (case f of Image w h \<Rightarrow> Inr (w, h) | Unreadable \<Rightarrow> Inl OSError)"

section \<open>\<^verbatim>\<open>collect_annotations_for_split\<close>\<close>

subsection \<open>The base names of the split\<close>

text \<open>
  \<^verbatim>\<open>Path.glob("*" + ext)\<close> yields the entries whose name ends with \<open>ext\<close>; \<^verbatim>\<open>Path.stem\<close>
  cuts the name at its last dot, unless that dot is the first or the last character.
\<close>

definition ends_with :: "string \<Rightarrow> string \<Rightarrow> bool" where
  "ends_with ext name =
     (length ext \<le> length name \<and> drop (length name - length ext) name = ext)"

definition glob_ext :: "string \<Rightarrow> (string \<times> 'a) list \<Rightarrow> string list" where
  "glob_ext ext dir = filter (ends_with ext) (map fst dir)"

definition stem_of :: "string \<Rightarrow> string" where
  "stem_of name =
     (if CHR ''.'' \<in> set name
      then let i = length name - 1 - length (takeWhile (\<lambda>c. c \<noteq> CHR ''.'') (rev name)) in
           if 0 < i \<and> i < length name - 1 then take i name else name
      else name)"

definition scan_subdir :: "string \<times> node \<Rightarrow> string list" where
  "scan_subdir e =
     (case e of
        (name, Dir sd) \<Rightarrow>
          (if name \<noteq> ''sets''
           then (case images_dir sd of
                   Some imgs \<Rightarrow>
                     map stem_of (glob_ext ''.png'' imgs) @
                     map stem_of (glob_ext ''.jpg'' imgs) @
                     map stem_of (glob_ext ''.JPG'' imgs)
                 | None \<Rightarrow> [])
           else [])
      | (name, File) \<Rightarrow> [])"

definition scan_all_images :: "dataset \<Rightarrow> string set" where
  "scan_all_images ds = set (concat (map scan_subdir (entries ds)))"

definition image_stems :: "dataset \<Rightarrow> string \<Rightarrow> string set" where
  "image_stems ds split =
     (let stems = set (read_split_list (map_of (sets_dir ds) (split @ ''.txt''))) in
      if stems = {} then scan_all_images ds else stems)"

subsection \<open>Resolving a base name\<close>

definition subcategory_names :: "string list" where
  "subcategory_names = [''healthy'', ''background'']"

definition extensions :: "string list" where
  "extensions = [''.png'', ''.jpg'', ''.JPG'', ''.PNG'', ''.jpeg'', ''.JPEG'']"

record resolved =
  img_name :: string
  img_file :: image_file
  subcategory :: string
  csv_file :: "string list list option"

text \<open>The inner loop over the extensions, and the outer loop over the subcategories.\<close>

fun try_exts :: "dataset \<Rightarrow> string \<Rightarrow> string \<Rightarrow> string list \<Rightarrow> resolved option" where
  "try_exts ds stem subcat_name [] = None"
| "try_exts ds stem subcat_name (ext # exts) =
     (case image_at ds subcat_name (stem @ ext) of
        Some f \<Rightarrow> Some \<lparr>img_name = stem @ ext, img_file = f, subcategory = subcat_name,
                         csv_file = csv_at ds subcat_name (stem @ ''.csv'')\<rparr>
      | None \<Rightarrow> try_exts ds stem subcat_name exts)"

fun try_subcats :: "dataset \<Rightarrow> string \<Rightarrow> string list \<Rightarrow> resolved option" where
  "try_subcats ds stem [] = None"
| "try_subcats ds stem (subcat_name # names) =
     (case try_exts ds stem subcat_name extensions of
        Some r \<Rightarrow> Some r
      | None \<Rightarrow> try_subcats ds stem names)"

definition resolve :: "dataset \<Rightarrow> string \<Rightarrow> resolved option" where
  "resolve ds stem = try_subcats ds stem subcategory_names"

subsection \<open>The records and the main loop\<close>

text \<open>
  \<^verbatim>\<open>sorted(image_stems)\<close> is the list of the elements of the set in increasing order.
  Strings are ordered as lists of characters by their codes, which is the order of Python
  on \<^verbatim>\<open>str\<close>.
\<close>

record image =
  img_id :: int
  file_name :: string
  img_width :: int
  img_height :: int

record 'f annotation =
  ann_id :: int
  image_id :: int
  category_id :: int
  bbox :: "'f pynum list"
  area :: "'f pynum"
  iscrowd :: int

record category =
  cat_id :: int
  cat_name :: string
  supercategory :: string

definition categories :: "category list" where
  "categories =
     [\<lparr>cat_id = 1, cat_name = ''healthy'', supercategory = ''blueberry''\<rparr>,
      \<lparr>cat_id = 2, cat_name = ''background_without_leaves'', supercategory = ''blueberry''\<rparr>]"

definition category_id_map :: "string \<rightharpoonup> int" where
  "category_id_map = [''healthy'' \<mapsto> 1, ''background'' \<mapsto> 2]"

definition default_category_id :: "string \<Rightarrow> int" where
  "default_category_id subcat = (case category_id_map subcat of Some c \<Rightarrow> c | None \<Rightarrow> 1)"

record 'f state =
  images :: "image list"
  anns :: "'f annotation list"
  image_id_counter :: int
  ann_id_counter :: int

text \<open>The three dictionary literals of the loop body.\<close>

definition image_record :: "int \<Rightarrow> resolved \<Rightarrow> int \<Rightarrow> int \<Rightarrow> image" where
  "image_record iid r w h =
     \<lparr>img_id = iid,
      file_name = ''blueberries/'' @ subcategory r @ ''/images/'' @ img_name r,
      img_width = w,
      img_height = h\<rparr>"

definition box_annotation :: "int \<Rightarrow> int \<Rightarrow> int \<Rightarrow> 'f box \<Rightarrow> 'f annotation" where
  "box_annotation aid iid dflt b =
     \<lparr>ann_id = aid,
      image_id = iid,
      category_id = (case box_category_id b of Some c \<Rightarrow> c | None \<Rightarrow> dflt),
      bbox = map PFloat (box_bbox b),
      area = PFloat (box_area b),
      iscrowd = 0\<rparr>"

definition full_image_annotation :: "int \<Rightarrow> int \<Rightarrow> int \<Rightarrow> int \<Rightarrow> int \<Rightarrow> 'f annotation" where
  "full_image_annotation aid iid dflt w h =
     \<lparr>ann_id = aid,
      image_id = iid,
      category_id = dflt,
      bbox = [PInt 0, PInt 0, PInt w, PInt h],
      area = PInt (w * h),
      iscrowd = 0\<rparr>"

text \<open>The loop \<^verbatim>\<open>for box in boxes\<close>, and the two branches that add the full-image box.\<close>

fun append_boxes :: "int \<Rightarrow> 'f box list \<Rightarrow> 'f state \<Rightarrow> 'f state" where
  "append_boxes dflt [] st = st"
| "append_boxes dflt (b # boxes) st =
     append_boxes dflt boxes
       (st\<lparr>anns := anns st @ [box_annotation (ann_id_counter st) (image_id_counter st) dflt b],
            ann_id_counter := ann_id_counter st + 1\<rparr>)"

definition append_full_image :: "int \<Rightarrow> int \<Rightarrow> int \<Rightarrow> 'f state \<Rightarrow> 'f state" where
  "append_full_image dflt w h st =
     st\<lparr>anns := anns st @
           [full_image_annotation (ann_id_counter st) (image_id_counter st) dflt w h],
         ann_id_counter := ann_id_counter st + 1\<rparr>"

definition annotate_image ::
  "'f::{zero,ord,times} builtins \<Rightarrow> resolved \<Rightarrow> int \<Rightarrow> int \<Rightarrow> int \<Rightarrow> 'f state \<Rightarrow> exn + 'f state" where
  "annotate_image B r dflt w h st =
     (case csv_file r of
        Some records \<Rightarrow>
          (case parse_csv_boxes B (Some records) of
             Inl e \<Rightarrow> Inl e
           | Inr boxes \<Rightarrow>
               if boxes \<noteq> [] then Inr (append_boxes dflt boxes st)
               else Inr (append_full_image dflt w h st))
      | None \<Rightarrow> Inr (append_full_image dflt w h st))"

text \<open>One pass of the loop body for a resolved base name.\<close>

definition process_image ::
  "'f::{zero,ord,times} builtins \<Rightarrow> resolved \<Rightarrow> 'f state \<Rightarrow> exn + 'f state" where
  "process_image B r st =
     (case image_size (img_file r) of
        Inl e \<Rightarrow> Inl e
      | Inr (w, h) \<Rightarrow>
          (case annotate_image B r (default_category_id (subcategory r)) w h
                  (st\<lparr>images := images st @ [image_record (image_id_counter st) r w h]\<rparr>) of
             Inl e \<Rightarrow> Inl e
           | Inr st2 \<Rightarrow> Inr (st2\<lparr>image_id_counter := image_id_counter st2 + 1\<rparr>)))"

fun collect_loop ::
  "'f::{zero,ord,times} builtins \<Rightarrow> dataset \<Rightarrow> string list \<Rightarrow> 'f state \<Rightarrow> exn + 'f state" where
  "collect_loop B ds [] st = Inr st"
| "collect_loop B ds (stem # stems) st =
     (case resolve ds stem of
        None \<Rightarrow> collect_loop B ds stems st
      | Some r \<Rightarrow>
          (case process_image B r st of
             Inl e \<Rightarrow> Inl e
           | Inr st' \<Rightarrow> collect_loop B ds stems st'))"

definition initial_state :: "'f state" where
  "initial_state = \<lparr>images = [], anns = [], image_id_counter = 1, ann_id_counter = 1\<rparr>"

definition collect_annotations_for_split ::
  "'f::{zero,ord,times} builtins \<Rightarrow> dataset \<Rightarrow> string \<Rightarrow>
     exn + (image list \<times> 'f annotation list \<times> category list)" where
  "collect_annotations_for_split B category_root split =
     (case collect_loop B category_root
             (sorted_list_of_set (image_stems category_root split)) initial_state of
        Inl e \<Rightarrow> Inl e
      | Inr st \<Rightarrow> Inr (images st, anns st, categories))"

section \<open>Notions used to state the properties\<close>

text \<open>
  The annotations the loop \<^verbatim>\<open>for box in boxes\<close> appends when it starts with the annotation
  counter at \<open>aid\<close>: the box at position \<open>i\<close> gets the identifier \<open>aid + i\<close>.
\<close>

definition numbered :: "int \<Rightarrow> int \<Rightarrow> int \<Rightarrow> 'f box list \<Rightarrow> 'f annotation list" where
  "numbered aid iid dflt boxes =
     map (\<lambda>(i, b). box_annotation (aid + int i) iid dflt b) (enumerate 0 boxes)"

text \<open>
  What one pass of the loop body adds for the resolved image \<open>r\<close>, with the counters at
  \<open>iid\<close> and \<open>aid\<close> and the image of size \<open>w\<close> by \<open>h\<close>.
\<close>

definition emitted ::
  "'f::{zero,ord,times} builtins \<Rightarrow> resolved \<Rightarrow> int \<Rightarrow> int \<Rightarrow> int \<Rightarrow> int \<Rightarrow> 'f annotation list \<Rightarrow> bool" where
  "emitted B r iid aid w h new =
     (\<exists>boxes. parse_csv_boxes B (csv_file r) = Inr boxes \<and>
        new = (if boxes = []
               then [full_image_annotation aid iid (default_category_id (subcategory r)) w h]
               else numbered aid iid (default_category_id (subcategory r)) boxes))"

definition step_ok ::
  "'f::{zero,ord,times} builtins \<Rightarrow> resolved \<Rightarrow> int \<Rightarrow> image \<Rightarrow> 'f annotation list \<Rightarrow> bool" where
  "step_ok B r iid img new =
     (\<exists>w h aid. image_size (img_file r) = Inr (w, h) \<and> img = image_record iid r w h \<and>
        emitted B r iid aid w h new)"

text \<open>
  A run of the loop over the resolved images \<open>rs\<close>, the image counter starting at \<open>iid\<close>:
  the image record and the annotations of each pass.
\<close>

primrec trace_ok ::
  "'f::{zero,ord,times} builtins \<Rightarrow> int \<Rightarrow> resolved list \<Rightarrow> image list \<Rightarrow> 'f annotation list list \<Rightarrow> bool" where
  "trace_ok B iid [] imgs chunks = (imgs = [] \<and> chunks = [])"
| "trace_ok B iid (r # rs) imgs chunks =
     (case imgs of
        [] \<Rightarrow> False
      | img # imgs' \<Rightarrow>
          (case chunks of
             [] \<Rightarrow> False
           | new # chunks' \<Rightarrow> step_ok B r iid img new \<and> trace_ok B (iid + 1) rs imgs' chunks'))"

definition resolved_list :: "dataset \<Rightarrow> string list \<Rightarrow> resolved list" where
  "resolved_list ds stems = List.map_filter (resolve ds) stems"

definition sorted_stems :: "dataset \<Rightarrow> string \<Rightarrow> string list" where
  "sorted_stems ds split = sorted_list_of_set (image_stems ds split)"

text \<open>
  Two datasets hold the same files when every path leads to the same file in both, however
  their directories are listed; a dataset is well formed when the category root lists no
  name twice.
\<close>

definition same_contents :: "dataset \<Rightarrow> dataset \<Rightarrow> bool" where
  "same_contents ds ds' =
     (map_of (sets_dir ds) = map_of (sets_dir ds') \<and>
      image_at ds = image_at ds' \<and>
      csv_at ds = csv_at ds')"

definition wf_dataset :: "dataset \<Rightarrow> bool" where
  "wf_dataset ds = distinct (map fst (entries ds))"





section \<open>Concrete inputs\<close>

text \<open>
  An instance of the builtins for evaluating the model: on a string of decimal digits with
  an optional leading minus sign, \<^verbatim>\<open>int\<close> and \<^verbatim>\<open>float\<close> return the number written (the
  floats used are whole numbers of small size, which \<^verbatim>\<open>float\<close> represents exactly). The
  concrete inputs below hold no other numeric strings.
\<close>

definition digit_of :: "char \<Rightarrow> nat option" where
  "digit_of c =
     (let n = of_char c :: nat in if 48 \<le> n \<and> n \<le> 57 then Some (n - 48) else None)"

fun digits_value :: "nat \<Rightarrow> string \<Rightarrow> nat option" where
  "digits_value acc [] = Some acc"
| "digits_value acc (c # cs) =
     (case digit_of c of None \<Rightarrow> None | Some d \<Rightarrow> digits_value (10 * acc + d) cs)"

definition parse_decimal :: "string \<Rightarrow> int option" where
  "parse_decimal s =
     (case s of
        [] \<Rightarrow> None
      | c # cs \<Rightarrow>
          if c = CHR ''-''
          then (if cs = [] then None else map_option (\<lambda>n. - int n) (digits_value 0 cs))
          else map_option int (digits_value 0 s))"

definition decimal_builtins :: "real builtins" where
  "decimal_builtins =
     \<lparr>float_of_str = (\<lambda>s. map_option of_int (parse_decimal s)),
      float_of_int = of_int,
      int_of_str = parse_decimal\<rparr>"

text \<open>
  The example of the specification: \<^verbatim>\<open>healthy/images/a.jpg\<close> (100 by 80) without a CSV
  file, \<^verbatim>\<open>background/images/b.jpg\<close> (50 by 50) with one row under the columns \<^verbatim>\<open>w\<close> and
  \<^verbatim>\<open>h\<close>. The split file names \<open>b\<close> before \<open>a\<close>, has a blank line, and names \<open>ghost\<close>,
  which is not on disk.
\<close>

definition example_root :: dataset where
  "example_root =
     \<lparr>sets_dir = [(''train.txt'', [''b'', ''a'', '' '', ''ghost''])],
      entries =
        [(''healthy'',
            Dir \<lparr>images_dir = Some [(''a.jpg'', Image 100 80)], csv_dir = []\<rparr>),
         (''background'',
            Dir \<lparr>images_dir = Some [(''b.jpg'', Image 50 50)],
                 csv_dir = [(''b.csv'',
                   [[''#item'', ''x'', ''y'', ''w'', ''h'', ''label''],
                    [''0'', ''0'', ''0'', ''50'', ''50'', ''2'']])]\<rparr>),
         (''sets'', Dir \<lparr>images_dir = None, csv_dir = []\<rparr>)]\<rparr>"

definition example_images :: "image list" where
  "example_images =
     [\<lparr>img_id = 1, file_name = ''blueberries/healthy/images/a.jpg'',
        img_width = 100, img_height = 80\<rparr>,
      \<lparr>img_id = 2, file_name = ''blueberries/background/images/b.jpg'',
        img_width = 50, img_height = 50\<rparr>]"

definition example_annotations :: "real annotation list" where
  "example_annotations =
     [\<lparr>ann_id = 1, image_id = 1, category_id = 1,
        bbox = [PInt 0, PInt 0, PInt 100, PInt 80], area = PInt 8000, iscrowd = 0\<rparr>,
      \<lparr>ann_id = 2, image_id = 2, category_id = 2,
        bbox = [PFloat 0, PFloat 0, PFloat 50, PFloat 50], area = PFloat 2500, iscrowd = 0\<rparr>]"




text \<open>
  A background image whose CSV file has no \<^verbatim>\<open>label\<close> column.
\<close>

definition unlabelled_root :: dataset where
  "unlabelled_root =
     \<lparr>sets_dir = [(''train.txt'', [''b''])],
      entries =
        [(''background'',
            Dir \<lparr>images_dir = Some [(''b.jpg'', Image 50 50)],
                 csv_dir = [(''b.csv'',
                   [[''#item'', ''x'', ''y'', ''width'', ''height''],
                    [''0'', ''0'', ''0'', ''50'', ''50'']])]\<rparr>)]\<rparr>"

text \<open>
  A CSV file whose first row stops after the width (its height and label are missing)
  and whose second row is complete.
\<close>

definition short_row_csv :: "string list list" where
  "short_row_csv =
     [[''#item'', ''x'', ''y'', ''width'', ''height'', ''label''],
      [''0'', ''10'', ''10'', ''50''],
      [''1'', ''0'', ''0'', ''20'', ''20'', ''1'']]"

definition short_row_root :: dataset where
  "short_row_root =
     \<lparr>sets_dir = [(''train.txt'', [''a''])],
      entries =
        [(''healthy'',
            Dir \<lparr>images_dir = Some [(''a.png'', Image 100 80)],
                 csv_dir = [(''a.csv'', short_row_csv)]\<rparr>)]\<rparr>"


definition example_permuted_root :: dataset where
  "example_permuted_root = example_root\<lparr>entries := rev (entries example_root)\<rparr>"


text \<open>No split file, and one image \<^verbatim>\<open>healthy/images/a.jpeg\<close>.\<close>

definition jpeg_root :: dataset where
  "jpeg_root =
     \<lparr>sets_dir = [],
      entries =
        [(''healthy'', Dir \<lparr>images_dir = Some [(''a.jpeg'', Image 10 10)], csv_dir = []\<rparr>)]\<rparr>"

section \<open>Auxiliary facts\<close>

lemma parse_row_Some:
  assumes "parse_row B row = Inr (Some b)"
  shows "\<exists>x y w h l. b = \<lparr>box_bbox = [x, y, w, h], box_area = w * h, box_category_id = Some l\<rparr>
           \<and> 0 < w \<and> 0 < h"
  using assms unfolding parse_row_def Let_def
  by (auto split: if_splits sum.splits)

lemma parse_rows_boxes:
  assumes "parse_rows B rows acc = Inr boxes" and "b \<in> set boxes"
  shows "b \<in> set acc \<or>
         (\<exists>x y w h l. b = \<lparr>box_bbox = [x, y, w, h], box_area = w * h, box_category_id = Some l\<rparr>
            \<and> 0 < w \<and> 0 < h)"
  using assms
proof (induction rows arbitrary: acc)
  case Nil
  then show ?case by simp
next
  case (Cons row rows)
  show ?case
  proof (cases "parse_row B row")
    case (Inl e)
    with Cons.prems have "parse_rows B rows acc = Inr boxes"
      by (simp split: if_splits)
    from Cons.IH [OF this Cons.prems(2)] show ?thesis .
  next
    case (Inr ob)
    show ?thesis
    proof (cases ob)
      case None
      with Inr Cons.prems have "parse_rows B rows acc = Inr boxes" by simp
      from Cons.IH [OF this Cons.prems(2)] show ?thesis .
    next
      case (Some b')
      with Inr Cons.prems have "parse_rows B rows (acc @ [b']) = Inr boxes" by simp
      from Cons.IH [OF this Cons.prems(2)] have
        "b \<in> set (acc @ [b']) \<or>
         (\<exists>x y w h l. b = \<lparr>box_bbox = [x, y, w, h], box_area = w * h, box_category_id = Some l\<rparr>
            \<and> 0 < w \<and> 0 < h)" .
      moreover from Inr Some have "parse_row B row = Inr (Some b')" by simp
      note parse_row_Some [OF this]
      ultimately show ?thesis by auto
    qed
  qed
qed

lemma parse_csv_boxes_box:
  assumes "parse_csv_boxes B f = Inr boxes" and "b \<in> set boxes"
  shows "\<exists>x y w h l. b = \<lparr>box_bbox = [x, y, w, h], box_area = w * h, box_category_id = Some l\<rparr>
            \<and> 0 < w \<and> 0 < h"
proof (cases f)
  case None
  with assms show ?thesis by (simp add: parse_csv_boxes_def)
next
  case (Some records)
  with assms have "parse_rows B (dict_reader records) [] = Inr boxes"
    by (simp add: parse_csv_boxes_def)
  from parse_rows_boxes [OF this assms(2)] show ?thesis by simp
qed

lemma numbered_Nil: "numbered aid iid dflt [] = []"
  by (simp add: numbered_def)

lemma numbered_Cons:
  "numbered aid iid dflt (b # bs) = box_annotation aid iid dflt b # numbered (aid + 1) iid dflt bs"
proof -
  have "map (\<lambda>(i, b). box_annotation (aid + int i) iid dflt b) (enumerate (Suc 0) bs) =
        map (\<lambda>(i, b). box_annotation (aid + 1 + int i) iid dflt b) (enumerate 0 bs)"
    by (simp add: enumerate_Suc_eq split_def algebra_simps)
  then show ?thesis by (simp add: numbered_def)
qed

lemma append_boxes_state:
  "append_boxes dflt boxes st =
     st\<lparr>anns := anns st @ numbered (ann_id_counter st) (image_id_counter st) dflt boxes,
        ann_id_counter := ann_id_counter st + int (length boxes)\<rparr>"
proof (induction boxes arbitrary: st)
  case Nil
  then show ?case by (simp add: numbered_Nil)
next
  case (Cons b boxes)
  show ?case by (simp add: Cons.IH numbered_Cons)
qed

lemma length_numbered: "length (numbered aid iid dflt boxes) = length boxes"
  by (simp add: numbered_def)

lemma ann_id_numbered:
  "map ann_id (numbered aid iid dflt boxes) = map (\<lambda>i. aid + int i) [0..<length boxes]"
proof (induction boxes arbitrary: aid)
  case Nil
  then show ?case by (simp add: numbered_Nil)
next
  case (Cons b boxes)
  show ?case
    by (simp add: numbered_Cons Cons.IH map_upt_Suc box_annotation_def algebra_simps
          del: upt_Suc)
qed

lemma image_id_numbered:
  "a \<in> set (numbered aid iid dflt boxes) \<Longrightarrow> image_id a = iid"
  by (auto simp: numbered_def box_annotation_def)

lemma annotate_image_Inr:
  assumes "annotate_image B r (default_category_id (subcategory r)) w h st = Inr st'"
  shows "\<exists>new. emitted B r (image_id_counter st) (ann_id_counter st) w h new \<and>
           st' = st\<lparr>anns := anns st @ new,
                    ann_id_counter := ann_id_counter st + int (length new)\<rparr>"
proof (cases "csv_file r")
  case None
  with assms show ?thesis
    by (auto simp: annotate_image_def emitted_def parse_csv_boxes_def append_full_image_def)
next
  case (Some records)
  with assms obtain boxes where p: "parse_csv_boxes B (csv_file r) = Inr boxes"
    by (auto simp: annotate_image_def split: sum.splits)
  show ?thesis
  proof (cases "boxes = []")
    case True
    with assms Some p show ?thesis
      by (auto simp: annotate_image_def emitted_def append_full_image_def)
  next
    case False
    with assms Some p show ?thesis
      by (auto simp: annotate_image_def emitted_def append_boxes_state length_numbered)
  qed
qed

lemma emitted_facts:
  assumes "emitted B r iid aid w h new"
  shows "new \<noteq> []"
    and "map ann_id new = map (\<lambda>i. aid + int i) [0..<length new]"
    and "\<forall>a\<in>set new. image_id a = iid"
proof -
  from assms obtain boxes where
    new: "new = (if boxes = []
               then [full_image_annotation aid iid (default_category_id (subcategory r)) w h]
               else numbered aid iid (default_category_id (subcategory r)) boxes)"
    by (auto simp: emitted_def)
  show "new \<noteq> []"
    using new length_numbered [of aid iid "default_category_id (subcategory r)" boxes]
    by (cases "boxes = []") auto
  show "map ann_id new = map (\<lambda>i. aid + int i) [0..<length new]"
    using new by (simp add: ann_id_numbered length_numbered full_image_annotation_def)
  show "\<forall>a\<in>set new. image_id a = iid"
    using new by (auto simp: full_image_annotation_def dest: image_id_numbered)
qed

lemma process_image_Inr:
  assumes "process_image B r st = Inr st'"
  shows "\<exists>w h new. image_size (img_file r) = Inr (w, h) \<and>
           emitted B r (image_id_counter st) (ann_id_counter st) w h new \<and>
           st' = \<lparr>images = images st @ [image_record (image_id_counter st) r w h],
                  anns = anns st @ new,
                  image_id_counter = image_id_counter st + 1,
                  ann_id_counter = ann_id_counter st + int (length new)\<rparr>"
proof -
  from assms obtain w h st2 where
    sz: "image_size (img_file r) = Inr (w, h)" and
    an: "annotate_image B r (default_category_id (subcategory r)) w h
           (st\<lparr>images := images st @ [image_record (image_id_counter st) r w h]\<rparr>) = Inr st2" and
    st': "st' = st2\<lparr>image_id_counter := image_id_counter st2 + 1\<rparr>"
    by (auto simp: process_image_def split: sum.splits prod.splits)
  from annotate_image_Inr [OF an] obtain new where
    em: "emitted B r (image_id_counter st) (ann_id_counter st) w h new" and
    st2: "st2 = (st\<lparr>images := images st @ [image_record (image_id_counter st) r w h]\<rparr>)
                  \<lparr>anns := anns st @ new, ann_id_counter := ann_id_counter st + int (length new)\<rparr>"
    by auto
  from st' st2 have "st' = \<lparr>images = images st @ [image_record (image_id_counter st) r w h],
                  anns = anns st @ new,
                  image_id_counter = image_id_counter st + 1,
                  ann_id_counter = ann_id_counter st + int (length new)\<rparr>"
    by simp
  with sz em show ?thesis by blast
qed

lemma trace_ok_length:
  "trace_ok B iid rs imgs chunks \<Longrightarrow> length imgs = length rs \<and> length chunks = length rs"
  by (induction rs arbitrary: iid imgs chunks) (auto split: list.splits)

lemma trace_ok_nth:
  "trace_ok B iid rs imgs chunks \<Longrightarrow> k < length rs \<Longrightarrow>
     step_ok B (rs ! k) (iid + int k) (imgs ! k) (chunks ! k)"
proof (induction rs arbitrary: iid imgs chunks k)
  case Nil
  then show ?case by simp
next
  case (Cons r rs)
  from Cons.prems(1) obtain img imgs' new chunks' where
    eq: "imgs = img # imgs'" "chunks = new # chunks'" and
    st: "step_ok B r iid img new" and tr: "trace_ok B (iid + 1) rs imgs' chunks'"
    by (auto split: list.splits)
  show ?case
  proof (cases k)
    case 0
    with eq st show ?thesis by simp
  next
    case (Suc j)
    with Cons.prems(2) have "j < length rs" by simp
    from Cons.IH [OF tr this] Suc eq show ?thesis by (simp add: algebra_simps)
  qed
qed

lemma map_upt_add:
  "map (\<lambda>i. a + int i) [0..<n + m] =
     map (\<lambda>i. a + int i) [0..<n] @ map (\<lambda>i. a + int n + int i) [0..<m]"
proof (induction m)
  case 0
  show ?case by simp
next
  case (Suc m)
  have "[0..<n + Suc m] = [0..<n + m] @ [n + m]" by simp
  then show ?case using Suc by (simp add: algebra_simps)
qed

lemma resolved_list_simps:
  "resolved_list ds [] = []"
  "resolve ds s = None \<Longrightarrow> resolved_list ds (s # ss) = resolved_list ds ss"
  "resolve ds s = Some r \<Longrightarrow> resolved_list ds (s # ss) = r # resolved_list ds ss"
  by (simp_all add: resolved_list_def List.map_filter_simps)

lemma collect_loop_trace:
  assumes "collect_loop B ds stems st = Inr st'"
  shows "\<exists>imgs chunks.
           trace_ok B (image_id_counter st) (resolved_list ds stems) imgs chunks \<and>
           images st' = images st @ imgs \<and>
           anns st' = anns st @ concat chunks \<and>
           map ann_id (concat chunks) =
             map (\<lambda>i. ann_id_counter st + int i) [0..<length (concat chunks)]"
  using assms
proof (induction stems arbitrary: st)
  case Nil
  then have "st' = st" by simp
  then have "trace_ok B (image_id_counter st) (resolved_list ds []) [] [] \<and>
           images st' = images st @ [] \<and>
           anns st' = anns st @ concat [] \<and>
           map ann_id (concat []) =
             map (\<lambda>i. ann_id_counter st + int i) [0..<length (concat ([]::'a annotation list list))]"
    by (simp add: resolved_list_simps)
  then show ?case
    by (intro exI [of _ "[]::image list"] exI [of _ "[]::'a annotation list list"])
next
  case (Cons stem stems)
  show ?case
  proof (cases "resolve ds stem")
    case None
    with Cons.prems have "collect_loop B ds stems st = Inr st'" by simp
    from Cons.IH [OF this] None show ?thesis by (simp add: resolved_list_simps)
  next
    case (Some r)
    with Cons.prems obtain st1 where
      p: "process_image B r st = Inr st1" and l: "collect_loop B ds stems st1 = Inr st'"
      by (auto split: sum.splits)
    from process_image_Inr [OF p] obtain w h new where
      sz: "image_size (img_file r) = Inr (w, h)" and
      em: "emitted B r (image_id_counter st) (ann_id_counter st) w h new" and
      st1: "st1 = \<lparr>images = images st @ [image_record (image_id_counter st) r w h],
                  anns = anns st @ new,
                  image_id_counter = image_id_counter st + 1,
                  ann_id_counter = ann_id_counter st + int (length new)\<rparr>"
      by blast
    from Cons.IH [OF l] obtain imgs chunks where
      tr: "trace_ok B (image_id_counter st1) (resolved_list ds stems) imgs chunks" and
      im: "images st' = images st1 @ imgs" and
      an: "anns st' = anns st1 @ concat chunks" and
      ids: "map ann_id (concat chunks) =
             map (\<lambda>i. ann_id_counter st1 + int i) [0..<length (concat chunks)]"
      by blast
    let ?img = "image_record (image_id_counter st) r w h"
    have step: "step_ok B r (image_id_counter st) ?img new"
      using sz em by (auto simp: step_ok_def)
    have 1: "trace_ok B (image_id_counter st) (resolved_list ds (stem # stems))
               (?img # imgs) (new # chunks)"
      using step tr Some st1 by (simp add: resolved_list_simps)
    have 2: "images st' = images st @ (?img # imgs)"
      using im st1 by simp
    have 3: "anns st' = anns st @ concat (new # chunks)"
      using an st1 by simp
    have "map ann_id new = map (\<lambda>i. ann_id_counter st + int i) [0..<length new]"
      using emitted_facts(2) [OF em] .
    moreover have "map ann_id (concat chunks) =
        map (\<lambda>i. ann_id_counter st + int (length new) + int i) [0..<length (concat chunks)]"
      using ids st1 by simp
    ultimately have 6: "map ann_id (concat (new # chunks)) =
        map (\<lambda>i. ann_id_counter st + int i) [0..<length (concat (new # chunks))]"
      by (simp add: map_upt_add)
    show ?thesis
      by (rule exI [of _ "?img # imgs"], rule exI [of _ "new # chunks"])
         (intro conjI 1 2 3 6)
  qed
qed

lemma upto_from_1: "map (\<lambda>i. 1 + int i) [0..<n] = [1..int n]"
proof (induction n)
  case 0
  show ?case by simp
next
  case (Suc n)
  have "[1..int (Suc n)] = [1..int n] @ [int n + 1]"
    using upto_rec2 [of 1 "int n + 1"] by (simp add: algebra_simps)
  with Suc show ?case by (simp add: algebra_simps)
qed


lemma in_numbered:
  assumes "a \<in> set (numbered aid iid dflt boxes)"
  shows "\<exists>i b. b \<in> set boxes \<and> a = box_annotation (aid + int i) iid dflt b"
proof -
  from assms obtain i b where "(i, b) \<in> set (enumerate 0 boxes)"
    and a: "a = box_annotation (aid + int i) iid dflt b"
    by (auto simp: numbered_def)
  then have "b \<in> set boxes" by (auto simp: in_set_enumerate_eq)
  with a show ?thesis by blast
qed

lemma collect_trace:
  assumes "collect_annotations_for_split B ds split = Inr (imgs, annots, cs)"
  shows "cs = categories \<and>
         (\<exists>chunks. trace_ok B 1 (resolved_list ds (sorted_stems ds split)) imgs chunks \<and>
            annots = concat chunks) \<and>
         map ann_id annots = [1..int (length annots)]"
proof -
  from assms obtain st where
    l: "collect_loop B ds (sorted_stems ds split) initial_state = Inr st" and
    o: "imgs = images st" "annots = anns st" "cs = categories"
    by (auto simp: collect_annotations_for_split_def sorted_stems_def split: sum.splits)
  from collect_loop_trace [OF l] obtain imgs0 chunks where
    tr: "trace_ok B (image_id_counter (initial_state :: 'a state))
           (resolved_list ds (sorted_stems ds split)) imgs0 chunks" and
    im: "images st = images (initial_state :: 'a state)  @ imgs0" and
    an: "anns st = anns (initial_state :: 'a state) @ concat chunks" and
    ids: "map ann_id (concat chunks) =
            map (\<lambda>i. ann_id_counter (initial_state :: 'a state) + int i)
              [0..<length (concat chunks)]"
    by blast
  have 1: "imgs = imgs0" using im o by (simp add: initial_state_def)
  have 2: "annots = concat chunks" using an o by (simp add: initial_state_def)
  have 3: "trace_ok B 1 (resolved_list ds (sorted_stems ds split)) imgs chunks"
    using tr 1 by (simp add: initial_state_def)
  have "map ann_id annots = map (\<lambda>i. 1 + int i) [0..<length annots]"
    using ids 2 by (simp add: initial_state_def)
  then have 4: "map ann_id annots = [1..int (length annots)]" by (simp only: upto_from_1)
  from o(3) 2 3 4 show ?thesis by blast
qed

lemma trace_image_ids:
  assumes "trace_ok B c rs imgs chunks"
  shows "map img_id imgs = map (\<lambda>k. c + int k) [0..<length rs]"
proof (rule nth_equalityI)
  show "length (map img_id imgs) = length (map (\<lambda>k. c + int k) [0..<length rs])"
    using trace_ok_length [OF assms] by simp
next
  fix k assume "k < length (map img_id imgs)"
  then have k: "k < length rs" using trace_ok_length [OF assms] by simp
  from trace_ok_nth [OF assms k] have "img_id (imgs ! k) = c + int k"
    by (auto simp: step_ok_def image_record_def)
  with k trace_ok_length [OF assms] show "map img_id imgs ! k = map (\<lambda>k. c + int k) [0..<length rs] ! k"
    by simp
qed



lemma resolved_list_filter:
  "resolved_list ds stems = map (the \<circ> resolve ds) (filter (\<lambda>s. resolve ds s \<noteq> None) stems)"
  by (simp add: resolved_list_def List.map_filter_def)

lemma collect_annotation_cases:
  assumes "collect_annotations_for_split B ds split = Inr (imgs, annots, cs)"
      and "a \<in> set annots"
  shows "\<exists>k<length imgs. image_id a = img_id (imgs ! k) \<and>
           ((\<exists>aid dflt. a = full_image_annotation aid (img_id (imgs ! k)) dflt
                            (img_width (imgs ! k)) (img_height (imgs ! k))) \<or>
            (\<exists>aid dflt x y w h l.
                a = box_annotation aid (img_id (imgs ! k)) dflt
                      \<lparr>box_bbox = [x, y, w, h], box_area = w * h, box_category_id = Some l\<rparr>
                \<and> 0 < w \<and> 0 < h))"
proof -
  let ?rs = "resolved_list ds (sorted_stems ds split)"
  from collect_trace [OF assms(1)] obtain chunks where
    tr: "trace_ok B 1 ?rs imgs chunks" and an: "annots = concat chunks"
    by blast
  from assms(2) an obtain ys where "ys \<in> set chunks" "a \<in> set ys" by auto
  then obtain k where k: "k < length chunks" and a: "a \<in> set (chunks ! k)"
    by (metis in_set_conv_nth)
  from trace_ok_length [OF tr] k have kr: "k < length ?rs" and ki: "k < length imgs" by simp_all
  from trace_ok_nth [OF tr kr] obtain w h aid where
    img: "imgs ! k = image_record (1 + int k) (?rs ! k) w h" and
    em: "emitted B (?rs ! k) (1 + int k) aid w h (chunks ! k)"
    by (auto simp: step_ok_def)
  have iid: "img_id (imgs ! k) = 1 + int k" and wh: "img_width (imgs ! k) = w" "img_height (imgs ! k) = h"
    using img by (simp_all add: image_record_def)
  from emitted_facts(3) [OF em] a have ia: "image_id a = img_id (imgs ! k)"
    using iid by simp
  let ?d = "default_category_id (subcategory (?rs ! k))"
  from em obtain boxes where
    p: "parse_csv_boxes B (csv_file (?rs ! k)) = Inr boxes" and
    new: "chunks ! k = (if boxes = [] then [full_image_annotation aid (1 + int k) ?d w h]
                        else numbered aid (1 + int k) ?d boxes)"
    by (auto simp: emitted_def)
  show ?thesis
  proof (cases "boxes = []")
    case True
    with new a have "a = full_image_annotation aid (img_id (imgs ! k)) ?d
                            (img_width (imgs ! k)) (img_height (imgs ! k))"
      using iid wh by simp
    with ki ia show ?thesis by blast
  next
    case False
    with new a have "a \<in> set (numbered aid (1 + int k) ?d boxes)" by simp
    from in_numbered [OF this] obtain i b where
      b: "b \<in> set boxes" and ab: "a = box_annotation (aid + int i) (1 + int k) ?d b"
      by blast
    from parse_csv_boxes_box [OF p b] obtain x y w' h' l where
      "b = \<lparr>box_bbox = [x, y, w', h'], box_area = w' * h', box_category_id = Some l\<rparr>"
      "0 < w'" "0 < h'"
      by blast
    with ab iid have "a = box_annotation (aid + int i) (img_id (imgs ! k)) ?d
                      \<lparr>box_bbox = [x, y, w', h'], box_area = w' * h', box_category_id = Some l\<rparr>
                \<and> 0 < w' \<and> 0 < h'"
      by simp
    with ki ia show ?thesis by blast
  qed
qed

subsection \<open>Resolution and the scan of the directories\<close>

lemma try_exts_cong:
  assumes "image_at ds = image_at ds'" and "csv_at ds = csv_at ds'"
  shows "try_exts ds stem sc exts = try_exts ds' stem sc exts"
  using assms by (induction exts) (simp_all split: option.splits)

lemma try_subcats_cong:
  assumes "image_at ds = image_at ds'" and "csv_at ds = csv_at ds'"
  shows "try_subcats ds stem names = try_subcats ds' stem names"
  by (induction names) (simp_all add: try_exts_cong [OF assms] split: option.splits)

lemma resolve_cong:
  assumes "image_at ds = image_at ds'" and "csv_at ds = csv_at ds'"
  shows "resolve ds = resolve ds'"
  by (rule ext) (simp add: resolve_def try_subcats_cong [OF assms])

lemma collect_loop_cong:
  assumes "resolve ds = resolve ds'"
  shows "collect_loop B ds stems st = collect_loop B ds' stems st"
  by (induction stems arbitrary: st) (simp_all add: assms split: option.splits sum.splits)












lemma scan_subdir_no_images: "images_dir sd = None \<Longrightarrow> scan_subdir (d, Dir sd) = []"
  by (simp add: scan_subdir_def)

lemma scan_subdir_images: "images_dir sd = Some imgs \<Longrightarrow> d \<noteq> ''sets'' \<Longrightarrow> scan_subdir (d, Dir sd) =
   map stem_of (glob_ext ''.png'' imgs) @ map stem_of (glob_ext ''.jpg'' imgs) @ map stem_of (glob_ext ''.JPG'' imgs)"
  by (simp add: scan_subdir_def)

lemma scan_subdir_sets: "scan_subdir (''sets'', n) = []"
  by (cases n) (simp_all add: scan_subdir_def)

lemma scan_subdir_file: "scan_subdir (d, File) = []"
  by (simp add: scan_subdir_def)

lemma in_scan_subdir:
  "x \<in> set (scan_subdir (d, node)) \<longleftrightarrow>
     (\<exists>sd imgs n. node = Dir sd \<and> d \<noteq> ''sets'' \<and> images_dir sd = Some imgs \<and>
        n \<in> fst ` set imgs \<and>
        (ends_with ''.png'' n \<or> ends_with ''.jpg'' n \<or> ends_with ''.JPG'' n) \<and>
        x = stem_of n)"
proof (cases node)
  case File
  then show ?thesis by (simp add: scan_subdir_file)
next
  case (Dir sd)
  show ?thesis
  proof (cases "images_dir sd")
    case None
    from None have "scan_subdir (d, Dir sd) = []" by (rule scan_subdir_no_images)
    with Dir None show ?thesis by simp
  next
    case (Some imgs)
    show ?thesis
    proof (cases "d = ''sets''")
      case True
      with Dir show ?thesis by (simp add: scan_subdir_sets)
    next
      case False
      from scan_subdir_images [OF Some False] Dir Some False show ?thesis
        by (auto simp: glob_ext_def)
    qed
  qed
qed

lemma in_scan_all_images:
  "x \<in> scan_all_images ds \<longleftrightarrow>
     (\<exists>d sd imgs n. (d, Dir sd) \<in> set (entries ds) \<and> d \<noteq> ''sets'' \<and>
        images_dir sd = Some imgs \<and> n \<in> fst ` set imgs \<and>
        (ends_with ''.png'' n \<or> ends_with ''.jpg'' n \<or> ends_with ''.JPG'' n) \<and>
        x = stem_of n)"
proof -
  have "x \<in> scan_all_images ds \<longleftrightarrow> (\<exists>d node. (d, node) \<in> set (entries ds) \<and> x \<in> set (scan_subdir (d, node)))"
    by (auto simp: scan_all_images_def)
  then show ?thesis by (simp only: in_scan_subdir) blast
qed

lemma image_at_Some_iff:
  "image_at ds d n \<noteq> None \<longleftrightarrow>
     (\<exists>sd imgs. map_of (entries ds) d = Some (Dir sd) \<and> images_dir sd = Some imgs \<and>
        n \<in> fst ` set imgs)"
proof (cases "map_of (entries ds) d")
  case None
  then show ?thesis by (simp add: image_at_def)
next
  case (Some node)
  show ?thesis
  proof (cases node)
    case File
    with Some show ?thesis by (simp add: image_at_def)
  next
    case (Dir sd)
    show ?thesis
    proof (cases "images_dir sd")
      case None
      with Some Dir show ?thesis by (simp add: image_at_def)
    next
      case (Some imgs)
      have "map_of imgs n \<noteq> None \<longleftrightarrow> n \<in> fst ` set imgs"
        by (simp add: map_of_eq_None_iff)
      with \<open>map_of (entries ds) d = Some node\<close> Dir Some show ?thesis
        by (simp add: image_at_def)
    qed
  qed
qed

lemma scan_all_images_char:
  assumes "wf_dataset ds"
  shows "scan_all_images ds =
           {x. \<exists>d n. d \<noteq> ''sets'' \<and> image_at ds d n \<noteq> None \<and>
                 (ends_with ''.png'' n \<or> ends_with ''.jpg'' n \<or> ends_with ''.JPG'' n) \<and>
                 x = stem_of n}"
proof -
  have m: "\<And>d node. (d, node) \<in> set (entries ds) \<longleftrightarrow> map_of (entries ds) d = Some node"
    using assms by (simp add: wf_dataset_def)
  show ?thesis
    unfolding set_eq_iff mem_Collect_eq in_scan_all_images image_at_Some_iff m
    by blast
qed

lemma same_contents_stems:
  assumes "wf_dataset ds" and "wf_dataset ds'" and "same_contents ds ds'"
  shows "image_stems ds split = image_stems ds' split"
proof -
  from assms(3) have s: "map_of (sets_dir ds) = map_of (sets_dir ds')"
    and i: "image_at ds = image_at ds'"
    by (simp_all add: same_contents_def)
  have "scan_all_images ds = scan_all_images ds'"
    by (simp only: scan_all_images_char [OF assms(1)] scan_all_images_char [OF assms(2)] i)
  then show ?thesis by (simp only: image_stems_def s)
qed


subsection \<open>Runs that return\<close>












subsection \<open>Evaluation on the concrete inputs\<close>

lemma example_run:
  "collect_annotations_for_split decimal_builtins example_root ''train'' =
     Inr (example_images, example_annotations, categories)"
  by code_simp



lemma example_permuted_same: "same_contents example_root example_permuted_root"
  unfolding same_contents_def
proof (intro conjI)
  show "map_of (sets_dir example_root) = map_of (sets_dir example_permuted_root)"
    by (simp add: example_permuted_root_def)
  show "image_at example_root = image_at example_permuted_root"
    by (intro ext) (simp add: image_at_def example_permuted_root_def example_root_def)
  show "csv_at example_root = csv_at example_permuted_root"
    by (intro ext) (simp add: csv_at_def example_permuted_root_def example_root_def)
qed

text \<open>
  The scan of the fallback looks for three of the six extensions that the resolution loop
  tries. An image \<^verbatim>\<open>a.jpeg\<close> resolves when the split file names \<open>a\<close>, but the scan does not
  find it: without a split file the aggregation returns no image.
\<close>

lemma jpeg_not_scanned:
  "image_stems jpeg_root ''train'' = {} \<and>
   resolve jpeg_root ''a'' =
     Some \<lparr>img_name = ''a.jpeg'', img_file = Image 10 10, subcategory = ''healthy'',
           csv_file = None\<rparr> \<and>
   collect_annotations_for_split decimal_builtins jpeg_root ''train'' = Inr ([], [], categories)"
  by code_simp


section \<open>Properties of the aggregation\<close>

subsection \<open>Identifiers\<close>

text \<open>
  C3. When the aggregation of a split returns, the image identifiers are \<open>1, \<dots>, N\<close> in
  the order of the image list, \<open>N\<close> being the number of base names of the split that
  resolve; the image at position \<open>k\<close> is the one of the \<open>k\<close>-th resolvable base name in
  sorted order. The annotation identifiers are \<open>1, \<dots>, M\<close> in the order of the annotation
  list, which is the order of emission. No identifier occurs twice.
\<close>

theorem identifiers_dense:
  assumes "collect_annotations_for_split B ds split = Inr (imgs, annots, cs)"
  shows "map img_id imgs = [1..int (length imgs)] \<and>
         map ann_id annots = [1..int (length annots)] \<and>
         distinct (map img_id imgs) \<and> distinct (map ann_id annots) \<and>
         (let names = filter (\<lambda>s. resolve ds s \<noteq> None)
                        (sorted_list_of_set (image_stems ds split))
          in length imgs = length names \<and> sorted names \<and> distinct names \<and>
             (\<forall>k<length names. \<exists>r. resolve ds (names ! k) = Some r \<and>
                 img_id (imgs ! k) = 1 + int k \<and>
                 file_name (imgs ! k) =
                   ''blueberries/'' @ subcategory r @ ''/images/'' @ img_name r))"
proof -
  let ?names = "filter (\<lambda>s. resolve ds s \<noteq> None) (sorted_list_of_set (image_stems ds split))"
  let ?rs = "resolved_list ds (sorted_stems ds split)"
  from collect_trace [OF assms] obtain chunks where
    tr: "trace_ok B 1 ?rs imgs chunks" and
    ids: "map ann_id annots = [1..int (length annots)]"
    by blast
  have rs: "?rs = map (the \<circ> resolve ds) ?names"
    by (simp add: resolved_list_filter sorted_stems_def)
  have len: "length imgs = length ?names"
    using trace_ok_length [OF tr] rs by simp
  have "map img_id imgs = map (\<lambda>k. 1 + int k) [0..<length ?rs]"
    by (rule trace_image_ids [OF tr])
  also have "\<dots> = [1..int (length ?rs)]" by (rule upto_from_1)
  finally have 1: "map img_id imgs = [1..int (length imgs)]"
    using trace_ok_length [OF tr] by simp
  have 3: "distinct (map img_id imgs)" by (simp only: 1 distinct_upto)
  have 4: "distinct (map ann_id annots)" by (simp only: ids distinct_upto)
  have 5: "sorted ?names" by (simp add: sorted_wrt_filter)
  have 6: "distinct ?names" by simp
  have 7: "\<forall>k<length ?names. \<exists>r. resolve ds (?names ! k) = Some r \<and>
                 img_id (imgs ! k) = 1 + int k \<and>
                 file_name (imgs ! k) =
                   ''blueberries/'' @ subcategory r @ ''/images/'' @ img_name r"
  proof (intro allI impI)
    fix k assume k: "k < length ?names"
    then have "?names ! k \<in> set ?names" by (rule nth_mem)
    then obtain r where r: "resolve ds (?names ! k) = Some r" by auto
    have kr: "k < length ?rs" using k rs by simp
    have "?rs ! k = r" using k r rs by simp
    with trace_ok_nth [OF tr kr] have
      "img_id (imgs ! k) = 1 + int k \<and>
       file_name (imgs ! k) = ''blueberries/'' @ subcategory r @ ''/images/'' @ img_name r"
      by (auto simp: step_ok_def image_record_def)
    with r show "\<exists>r. resolve ds (?names ! k) = Some r \<and>
                 img_id (imgs ! k) = 1 + int k \<and>
                 file_name (imgs ! k) =
                   ''blueberries/'' @ subcategory r @ ''/images/'' @ img_name r"
      by blast
  qed
  from 1 ids 3 4 len 5 6 7 show ?thesis by (simp only: Let_def)
qed

theorem identifiers_dense_witness:
  "collect_annotations_for_split decimal_builtins example_root ''train'' =
     Inr (example_images, example_annotations, categories) \<and>
   map img_id example_images = [1, 2] \<and> map ann_id example_annotations = [1, 2]"
proof -
  from identifiers_dense [OF example_run]
  have "map img_id example_images = [1..int (length example_images)]"
    and "map ann_id example_annotations = [1..int (length example_annotations)]"
    by blast+
  moreover have "[1..int (length example_images)] = [1, 2]"
    by (simp add: example_images_def upto_rec1)
  moreover have "[1..int (length example_annotations)] = [1, 2]"
    by (simp add: example_annotations_def upto_rec1)
  ultimately show ?thesis using example_run by simp
qed

text \<open>
  C7. When the aggregation of a split returns, the \<open>image_id\<close> of every annotation is the
  identifier of an image of the same output.
\<close>

theorem annotation_image_id_exists:
  assumes "collect_annotations_for_split B ds split = Inr (imgs, annots, cs)"
  shows "\<forall>a\<in>set annots. image_id a \<in> img_id ` set imgs"
proof
  fix a assume "a \<in> set annots"
  from collect_annotation_cases [OF assms this] obtain k where
    "k < length imgs" "image_id a = img_id (imgs ! k)"
    by blast
  then show "image_id a \<in> img_id ` set imgs" by (metis imageI nth_mem)
qed

theorem annotation_image_id_exists_witness:
  "collect_annotations_for_split decimal_builtins example_root ''train'' =
     Inr (example_images, example_annotations, categories) \<and>
   image_id (example_annotations ! 1) \<in> img_id ` set example_images"
proof -
  have "example_annotations ! 1 \<in> set example_annotations"
    by (simp add: example_annotations_def)
  with annotation_image_id_exists [OF example_run]
  have "image_id (example_annotations ! 1) \<in> img_id ` set example_images" by blast
  with example_run show ?thesis by (rule conjI)
qed

subsection \<open>Bounding boxes\<close>

text \<open>
  C8. When the aggregation of a split returns, every annotation has a bounding box of four
  components, and its area is the product of the third and the fourth (the width and the
  height), computed by the multiplication of Python.
\<close>

theorem annotation_area_is_product:
  assumes "collect_annotations_for_split B ds split = Inr (imgs, annots, cs)"
  shows "\<forall>a\<in>set annots. length (bbox a) = 4 \<and> area a = num_mul B (bbox a ! 2) (bbox a ! 3)"
proof
  fix a assume "a \<in> set annots"
  from collect_annotation_cases [OF assms this]
  show "length (bbox a) = 4 \<and> area a = num_mul B (bbox a ! 2) (bbox a ! 3)"
    by (auto simp: full_image_annotation_def box_annotation_def num_mul_def)
qed

theorem annotation_area_is_product_witness:
  "collect_annotations_for_split decimal_builtins example_root ''train'' =
     Inr (example_images, example_annotations, categories) \<and>
   area (example_annotations ! 1) =
     num_mul decimal_builtins (bbox (example_annotations ! 1) ! 2)
       (bbox (example_annotations ! 1) ! 3)"
proof -
  have "example_annotations ! 1 \<in> set example_annotations"
    by (simp add: example_annotations_def)
  with annotation_area_is_product [OF example_run]
  have "area (example_annotations ! 1) =
     num_mul decimal_builtins (bbox (example_annotations ! 1) ! 2)
       (bbox (example_annotations ! 1) ! 3)" by blast
  with example_run show ?thesis by (rule conjI)
qed




subsection \<open>Annotations of one image\<close>



subsection \<open>Category of a row without a label\<close>

text \<open>
  C2 at an input where the code departs from it: a background image whose CSV file has no
  \<^verbatim>\<open>label\<close> column. \<^verbatim>\<open>parse_csv_boxes\<close> puts the label \<open>1\<close> into every box
  (\<^verbatim>\<open>int(row.get('label', 1))\<close>), so the default of \<^verbatim>\<open>box.get('category_id', ...)\<close> in the
  caller is never used: the annotation gets the category \<open>1\<close>, while the default category
  of \<^verbatim>\<open>background\<close> is \<open>2\<close>.
\<close>

theorem missing_label_gets_category_1:
  "collect_annotations_for_split decimal_builtins unlabelled_root ''train'' =
     Inr ([\<lparr>img_id = 1, file_name = ''blueberries/background/images/b.jpg'',
             img_width = 50, img_height = 50\<rparr>],
          [\<lparr>ann_id = 1, image_id = 1, category_id = 1,
             bbox = [PFloat 0, PFloat 0, PFloat 50, PFloat 50], area = PFloat 2500,
             iscrowd = 0\<rparr>],
          categories) \<and>
   default_category_id ''background'' = 2"
  by code_simp

subsection \<open>Rows that stop short\<close>

text \<open>
  C4 at an input where the code departs from it: a row with fewer fields than the header.
  \<^verbatim>\<open>csv.DictReader\<close> gives the missing columns the value \<^verbatim>\<open>None\<close>; \<^verbatim>\<open>float(None)\<close> raises
  \<^verbatim>\<open>TypeError\<close>, which \<^verbatim>\<open>except (ValueError, KeyError)\<close> does not catch. The row is not
  skipped: the exception leaves \<^verbatim>\<open>parse_csv_boxes\<close> and the aggregation of the split,
  although the next row alone would have been accepted.
\<close>

theorem short_row_aborts:
  "parse_csv_boxes decimal_builtins (Some short_row_csv) = Inl TypeError \<and>
   parse_csv_boxes decimal_builtins (Some [short_row_csv ! 0, short_row_csv ! 2]) =
     Inr [\<lparr>box_bbox = [0, 0, 20, 20], box_area = 400, box_category_id = Some 1\<rparr>] \<and>
   collect_annotations_for_split decimal_builtins short_row_root ''train'' = Inl TypeError"
  by code_simp

subsection \<open>Resolution of a base name\<close>



subsection \<open>The fallback when there is no split list\<close>




subsection \<open>Determinism\<close>

text \<open>
  C10. Two datasets that hold the same files (every path leads to the same file in both,
  in whatever order the directories are listed) give the same result, the failure
  included; and the categories of a result are always the same fixed list of two.
\<close>

theorem aggregation_deterministic:
  assumes "wf_dataset ds" and "wf_dataset ds'" and "same_contents ds ds'"
  shows "collect_annotations_for_split B ds split = collect_annotations_for_split B ds' split \<and>
         (\<forall>imgs annots cs.
            collect_annotations_for_split B ds split = Inr (imgs, annots, cs) \<longrightarrow>
              cs = categories) \<and>
         length categories = 2"
proof (intro conjI allI impI)
  from assms(3) have "image_at ds = image_at ds'" and "csv_at ds = csv_at ds'"
    by (simp_all add: same_contents_def)
  then have r: "resolve ds = resolve ds'" by (rule resolve_cong)
  show "collect_annotations_for_split B ds split = collect_annotations_for_split B ds' split"
    unfolding collect_annotations_for_split_def
    by (simp only: same_contents_stems [OF assms] collect_loop_cong [OF r])
next
  fix imgs annots cs
  assume "collect_annotations_for_split B ds split = Inr (imgs, annots, cs)"
  then show "cs = categories"
    by (auto simp: collect_annotations_for_split_def split: sum.splits)
next
  show "length categories = 2" by (simp add: categories_def)
qed

theorem aggregation_deterministic_witness:
  "wf_dataset example_root \<and> wf_dataset example_permuted_root \<and>
   same_contents example_root example_permuted_root \<and>
   entries example_permuted_root \<noteq> entries example_root \<and>
   collect_annotations_for_split decimal_builtins example_permuted_root ''train'' =
     Inr (example_images, example_annotations, categories)"
proof -
  have 1: "wf_dataset example_root" by (simp add: wf_dataset_def example_root_def)
  have 2: "wf_dataset example_permuted_root"
    by (simp add: wf_dataset_def example_permuted_root_def example_root_def)
  have 3: "entries example_permuted_root \<noteq> entries example_root"
    by (simp add: example_permuted_root_def example_root_def)
  from aggregation_deterministic [OF 1 2 example_permuted_same, of decimal_builtins "''train''"]
  have "collect_annotations_for_split decimal_builtins example_root ''train'' =
        collect_annotations_for_split decimal_builtins example_permuted_root ''train''" ..
  with example_run
  have 4: "collect_annotations_for_split decimal_builtins example_permuted_root ''train'' =
     Inr (example_images, example_annotations, categories)" by simp
  from 1 2 example_permuted_same 3 4 show ?thesis by (intro conjI)
qed

end
